theory Spec2Isabelle
  imports Main
begin

section \<open>The HACK assembler of \<open>hack_asm.py\<close>\<close>

text \<open>
  The assembler is a pipeline of pure list and dictionary functions between reading the
  \<open>.asm\<close> file and writing the \<open>.hack\<close> file. Each function of the source is embedded
  under its own name. Python exceptions are values of the type \<open>error\<close>; a function
  that can raise returns \<open>error + 'a\<close>, with \<open>Inl\<close> for the exception.

  A Python \<open>str\<close> is modelled as a \<open>string\<close>, each \<open>char\<close> standing for the code point
  of the same number (0 to 255); text with code points beyond 255 is outside the model.
  A Python \<open>int\<close> is an \<open>int\<close>. A \<open>dict\<close> with \<open>str\<close> keys is a map.
\<close>

datatype error = IndexError | KeyError | ValueError

type_synonym table = "string \<rightharpoonup> int"
type_synonym code_table = "string \<rightharpoonup> string"

subsection \<open>Built-in operations of Python used by the source\<close>

text \<open>\<open>str.isspace\<close> of a single character, which is what \<open>str.split()\<close> splits on.\<close>

definition py_isspace :: "char \<Rightarrow> bool" where
  "py_isspace c =
     (let n = (of_char c :: nat)
      in (9 \<le> n \<and> n \<le> 13) \<or> (28 \<le> n \<and> n \<le> 32) \<or> n = 133 \<or> n = 160)"

text \<open>The ASCII decimal digits, the only characters below 256 that \<open>int()\<close> reads as digits.\<close>

definition is_decimal :: "char \<Rightarrow> bool" where
  "is_decimal c = (c \<in> set ''0123456789'')"

text \<open>
  \<open>str.isdigit\<close> of a single character: the ASCII digits and the superscript digits
  two, three and one (code points 178, 179 and 185).
\<close>

definition py_isdigit :: "char \<Rightarrow> bool" where
  "py_isdigit c = (is_decimal c \<or> c \<in> {CHR 0xB2, CHR 0xB3, CHR 0xB9})"

text \<open>\<open>line.split()\<close>: the maximal runs of non-whitespace characters, in order.\<close>

fun split_ws :: "string \<Rightarrow> string \<Rightarrow> string list" where
  "split_ws cur [] = (if cur = [] then [] else [cur])"
| "split_ws cur (c # cs) =
     (if py_isspace c then (if cur = [] then split_ws [] cs else cur # split_ws [] cs)
      else split_ws (cur @ [c]) cs)"

definition py_split :: "string \<Rightarrow> string list" where
  "py_split s = split_ws [] s"

text \<open>
  \<open>s.index(c)\<close>, the position of the first occurrence. The source calls it only under the
  guard \<open>c in s\<close>, where it cannot raise.
\<close>

definition py_index :: "'a list \<Rightarrow> 'a \<Rightarrow> nat" where
  "py_index xs c = length (takeWhile (\<lambda>x. x \<noteq> c) xs)"

text \<open>
  Slices \<open>xs[i:j]\<close>, \<open>xs[i:]\<close> and \<open>xs[:j]\<close>: a negative bound counts from the end, and every
  bound is clamped to the list, so a slice never raises.
\<close>

definition norm_index :: "nat \<Rightarrow> int \<Rightarrow> nat" where
  "norm_index n i = (if i < 0 then nat (max 0 (int n + i)) else min (nat i) n)"

definition slice :: "int \<Rightarrow> int \<Rightarrow> 'a list \<Rightarrow> 'a list" where
  "slice i j xs =
     (let a = norm_index (length xs) i; b = norm_index (length xs) j
      in take (b - a) (drop a xs))"

definition slice_from :: "int \<Rightarrow> 'a list \<Rightarrow> 'a list" where
  "slice_from i xs = drop (norm_index (length xs) i) xs"

definition slice_to :: "int \<Rightarrow> 'a list \<Rightarrow> 'a list" where
  "slice_to j xs = take (norm_index (length xs) j) xs"

text \<open>\<open>xs.remove(x)\<close> deletes the first element equal to \<open>x\<close> and raises when there is none.\<close>

definition py_remove :: "'a \<Rightarrow> 'a list \<Rightarrow> error + 'a list" where
  "py_remove x xs = (if x \<in> set xs then Inr (remove1 x xs) else Inl ValueError)"

text \<open>
  \<open>str(n)\<close> of an integer: decimal, no leading zeros, a minus sign when negative. The
  digits are computed on the absolute value.
\<close>

definition digit_char :: "int \<Rightarrow> char" where
  "digit_char d = ''0123456789'' ! nat d"

function dec_digits :: "int \<Rightarrow> string" where
  "dec_digits n =
     (if n < 10 then [digit_char n] else dec_digits (n div 10) @ [digit_char (n mod 10)])"
  by pat_completeness auto
termination
  by (relation "measure nat") auto

declare dec_digits.simps [simp del]

definition py_str :: "int \<Rightarrow> string" where
  "py_str n = (if n < 0 then CHR ''-'' # dec_digits (- n) else dec_digits n)"

text \<open>\<open>bin(n)\<close>: the prefix \<open>0b\<close> and the binary digits, after a minus sign when negative.\<close>

function bin_digits :: "int \<Rightarrow> string" where
  "bin_digits n =
     (if n < 2 then [digit_char n] else bin_digits (n div 2) @ [digit_char (n mod 2)])"
  by pat_completeness auto
termination
  by (relation "measure nat") auto

declare bin_digits.simps [simp del]

definition py_bin :: "int \<Rightarrow> string" where
  "py_bin n = (if n < 0 then ''-0b'' @ bin_digits (- n) else ''0b'' @ bin_digits n)"

text \<open>
  \<open>int(s)\<close> in base ten: whitespace around the numeral is skipped, one sign is allowed,
  and the digits may be grouped by single underscores. Anything else raises
  \<open>ValueError\<close>. (The interpreter's configurable bound on the number of digits is not
  modelled.)
\<close>

definition int_space :: "char \<Rightarrow> bool" where
  "int_space c =
     (let n = (of_char c :: nat) in (9 \<le> n \<and> n \<le> 13) \<or> n = 32 \<or> n = 133 \<or> n = 160)"

definition digit_val :: "char \<Rightarrow> int" where
  "digit_val c = of_char c - 48"

fun valid_digits :: "string \<Rightarrow> bool" where
  "valid_digits [] = False"
| "valid_digits [c] = is_decimal c"
| "valid_digits (c # d # cs) =
     (is_decimal c \<and> (if d = CHR ''_'' then valid_digits cs else valid_digits (d # cs)))"

definition dec_value :: "string \<Rightarrow> int" where
  "dec_value s = foldl (\<lambda>a c. 10 * a + digit_val c) 0 (filter (\<lambda>c. c \<noteq> CHR ''_'') s)"

definition py_int :: "string \<Rightarrow> error + int" where
  "py_int s =
     (let t = rev (dropWhile int_space (rev (dropWhile int_space s)));
          neg = (t \<noteq> [] \<and> hd t = CHR ''-'');
          u = (if t \<noteq> [] \<and> (hd t = CHR ''-'' \<or> hd t = CHR ''+'') then tl t else t)
      in if valid_digits u
         then Inr (if neg then - dec_value u else dec_value u)
         else Inl ValueError)"

subsection \<open>\<open>parser\<close>\<close>

text \<open>
  The loop of \<open>parser\<close> over the lines \<open>asm_lst\<close> that \<open>read().splitlines()\<close> gave. The
  \<open>else\<close> of the source belongs to \<open>if '/' in mod_line\<close>: a line whose first \<open>/\<close> is at
  index 0 reaches neither \<open>append\<close>.
\<close>

fun parser_loop :: "string list \<Rightarrow> string list \<Rightarrow> string list" where
  "parser_loop [] parsed_lst = parsed_lst"
| "parser_loop (line # rest) parsed_lst =
     (if line \<noteq> [] then
        (let mod_line = concat (py_split line)
         in if CHR ''/'' \<in> set mod_line then
              (let ind = py_index mod_line CHR ''/''
               in if ind \<noteq> 0 then parser_loop rest (parsed_lst @ [slice 0 (int ind) mod_line])
                  else parser_loop rest parsed_lst)
            else parser_loop rest (parsed_lst @ [mod_line]))
      else parser_loop rest parsed_lst)"

definition parser :: "string list \<Rightarrow> string list" where
  "parser asm_lst = parser_loop asm_lst []"

subsection \<open>\<open>label_table\<close>\<close>

text \<open>
  The loop runs over a copy of the list and removes label lines from the list itself;
  the state is the table, the counter and the list. The result pairs the returned table
  with the mutated list, which is what the caller goes on to use.
\<close>

fun label_loop :: "string list \<Rightarrow> table \<Rightarrow> int \<Rightarrow> string list \<Rightarrow> error + (table \<times> string list)" where
  "label_loop [] table_dict instr_count instr_lst = Inr (table_dict, instr_lst)"
| "label_loop (line # rest) table_dict instr_count instr_lst =
     (if CHR ''('' \<notin> set line then label_loop rest table_dict (instr_count + 1) instr_lst
      else
        (let label = slice 1 (- 1) line
         in case py_remove line instr_lst of
              Inl e \<Rightarrow> Inl e
            | Inr lst' \<Rightarrow> label_loop rest (table_dict(label \<mapsto> instr_count)) instr_count lst'))"

definition label_table :: "string list \<Rightarrow> error + (table \<times> string list)" where
  "label_table instr_lst = label_loop instr_lst Map.empty 0 instr_lst"

subsection \<open>\<open>const_table\<close>\<close>

definition const_table :: table where
  "const_table =
     (foldl (\<lambda>table_dict i. table_dict(CHR ''R'' # py_str (int i) \<mapsto> int i)) Map.empty [0..<16])
       (''SCREEN'' \<mapsto> 16384, ''KBD'' \<mapsto> 24576,
        ''SP'' \<mapsto> 0, ''LCL'' \<mapsto> 1, ''ARG'' \<mapsto> 2, ''THIS'' \<mapsto> 3, ''THAT'' \<mapsto> 4)"

subsection \<open>\<open>var_table\<close>\<close>

text \<open>\<open>line[0]\<close> and \<open>line[1]\<close> raise \<open>IndexError\<close> on a line that is too short.\<close>

fun var_loop :: "string list \<Rightarrow> table \<Rightarrow> table \<Rightarrow> table \<Rightarrow> int \<Rightarrow> error + table" where
  "var_loop [] lbl_tbl const_tbl table_dict ram_pointer = Inr table_dict"
| "var_loop (line # rest) lbl_tbl const_tbl table_dict ram_pointer =
     (case line of
        [] \<Rightarrow> Inl IndexError
      | c0 # r \<Rightarrow>
          if c0 = CHR ''@'' then
            (case r of
               [] \<Rightarrow> Inl IndexError
             | c1 # _ \<Rightarrow>
                 if \<not> py_isdigit c1 then
                   (let symb = slice_from 1 line
                    in if lbl_tbl symb = None \<and> const_tbl symb = None \<and> table_dict symb = None
                       then var_loop rest lbl_tbl const_tbl
                              (table_dict(symb \<mapsto> ram_pointer)) (ram_pointer + 1)
                       else var_loop rest lbl_tbl const_tbl table_dict ram_pointer)
                 else var_loop rest lbl_tbl const_tbl table_dict ram_pointer)
          else var_loop rest lbl_tbl const_tbl table_dict ram_pointer)"

definition var_table :: "string list \<Rightarrow> table \<Rightarrow> table \<Rightarrow> error + table" where
  "var_table instr_lst lbl_tbl const_tbl = var_loop instr_lst lbl_tbl const_tbl Map.empty 16"

subsection \<open>\<open>refer_to_num\<close>\<close>

text \<open>
  \<open>{**lbl_tbl, **const_tbl, **var_tbl}\<close> builds a new dictionary from the three in this
  order, a later one overwriting the keys it shares with an earlier one: that is
  \<open>++\<close> on maps. \<open>symb_tbl[symb]\<close> raises \<open>KeyError\<close> on a missing key.
\<close>

fun refer_loop :: "string list \<Rightarrow> table \<Rightarrow> string list \<Rightarrow> error + string list" where
  "refer_loop [] symb_tbl new_lst = Inr new_lst"
| "refer_loop (line # rest) symb_tbl new_lst =
     (case line of
        [] \<Rightarrow> Inl IndexError
      | c0 # r \<Rightarrow>
          if c0 = CHR ''@'' then
            (case r of
               [] \<Rightarrow> Inl IndexError
             | c1 # _ \<Rightarrow>
                 if \<not> py_isdigit c1 then
                   (let symb = slice_from 1 line
                    in case symb_tbl symb of
                         None \<Rightarrow> Inl KeyError
                       | Some v \<Rightarrow> refer_loop rest symb_tbl (new_lst @ [CHR ''@'' # py_str v]))
                 else refer_loop rest symb_tbl (new_lst @ [line]))
          else refer_loop rest symb_tbl (new_lst @ [line]))"

definition refer_to_num :: "string list \<Rightarrow> table \<Rightarrow> table \<Rightarrow> table \<Rightarrow> error + string list" where
  "refer_to_num instr_lst lbl_tbl const_tbl var_tbl =
     (let symb_tbl = lbl_tbl ++ const_tbl ++ var_tbl in refer_loop instr_lst symb_tbl [])"

subsection \<open>\<open>a_instr_encoder\<close>\<close>

text \<open>The padding loop runs \<open>16 - len(bin_str)\<close> times, and not at all when that is negative.\<close>

fun pad_loop :: "nat \<Rightarrow> string \<Rightarrow> string" where
  "pad_loop 0 bin_str = bin_str"
| "pad_loop (Suc k) bin_str = pad_loop k (CHR ''0'' # bin_str)"

definition a_instr_encoder :: "string \<Rightarrow> error + string" where
  "a_instr_encoder instr =
     (case py_int (slice_from 1 instr) of
        Inl e \<Rightarrow> Inl e
      | Inr n \<Rightarrow>
          (let bin_str = slice_from 2 (py_bin n)
           in Inr (pad_loop (nat (16 - int (length bin_str))) bin_str)))"

subsection \<open>\<open>c_instr_encoder\<close>\<close>

definition c_instr_encoder :: "string \<Rightarrow> code_table \<Rightarrow> code_table \<Rightarrow> code_table \<Rightarrow> error + string" where
  "c_instr_encoder line comp_tbl dest_tbl jmp_tbl =
     (let ind_eq = (if CHR ''='' \<in> set line then int (py_index line CHR ''='')
                    else - int (length line) - 1);
          ind_jmp = (if CHR '';'' \<in> set line then int (py_index line CHR '';'')
                     else int (length line));
          dest0 = slice_to ind_eq line;
          dest = (if dest0 = [] then ''null'' else dest0);
          jmp0 = slice_from (ind_jmp + 1) line;
          jmp = (if jmp0 = [] then ''null'' else jmp0);
          comp = slice (ind_eq + 1) ind_jmp line
      in case comp_tbl comp of
           None \<Rightarrow> Inl KeyError
         | Some cc \<Rightarrow>
             (case dest_tbl dest of
                None \<Rightarrow> Inl KeyError
              | Some dc \<Rightarrow>
                  (case jmp_tbl jmp of
                     None \<Rightarrow> Inl KeyError
                   | Some jc \<Rightarrow> Inr (''111'' @ cc @ dc @ jc))))"

subsection \<open>\<open>bin_encoder\<close>\<close>

definition comp_tbl :: code_table where
  "comp_tbl =
     [''0'' \<mapsto> ''0101010'', ''1'' \<mapsto> ''0111111'', ''-1'' \<mapsto> ''0111010'',
      ''D'' \<mapsto> ''0001100'', ''A'' \<mapsto> ''0110000'', ''M'' \<mapsto> ''1110000'',
      ''!D'' \<mapsto> ''0001101'', ''!A'' \<mapsto> ''0110001'', ''!M'' \<mapsto> ''1110001'',
      ''-D'' \<mapsto> ''0001101'', ''-A'' \<mapsto> ''0110011'', ''-M'' \<mapsto> ''1110011'',
      ''D+1'' \<mapsto> ''0011111'', ''A+1'' \<mapsto> ''0110111'', ''M+1'' \<mapsto> ''1110111'',
      ''D-1'' \<mapsto> ''0001110'', ''A-1'' \<mapsto> ''0110010'', ''M-1'' \<mapsto> ''1110010'',
      ''D+A'' \<mapsto> ''0000010'', ''D+M'' \<mapsto> ''1000010'',
      ''D-A'' \<mapsto> ''0010011'', ''D-M'' \<mapsto> ''1010011'',
      ''A-D'' \<mapsto> ''0000111'', ''M-D'' \<mapsto> ''1000111'',
      ''D&A'' \<mapsto> ''0000000'', ''D&M'' \<mapsto> ''1000000'',
      ''D|A'' \<mapsto> ''0010101'', ''D|M'' \<mapsto> ''1010101'']"

definition dest_tbl :: code_table where
  "dest_tbl =
     [''null'' \<mapsto> ''000'', ''M'' \<mapsto> ''001'', ''D'' \<mapsto> ''010'', ''MD'' \<mapsto> ''011'',
      ''A'' \<mapsto> ''100'', ''AM'' \<mapsto> ''101'', ''AD'' \<mapsto> ''110'', ''AMD'' \<mapsto> ''111'']"

definition jmp_tbl :: code_table where
  "jmp_tbl =
     [''null'' \<mapsto> ''000'', ''JGT'' \<mapsto> ''001'', ''JEQ'' \<mapsto> ''010'', ''JGE'' \<mapsto> ''011'',
      ''JLT'' \<mapsto> ''100'', ''JNE'' \<mapsto> ''101'', ''JLE'' \<mapsto> ''110'', ''JMP'' \<mapsto> ''111'']"

fun bin_loop :: "string list \<Rightarrow> string list \<Rightarrow> error + string list" where
  "bin_loop [] bin_lst = Inr bin_lst"
| "bin_loop (line # rest) bin_lst =
     (case line of
        [] \<Rightarrow> Inl IndexError
      | c0 # _ \<Rightarrow>
          (case (if c0 = CHR ''@'' then a_instr_encoder line
                 else c_instr_encoder line comp_tbl dest_tbl jmp_tbl) of
             Inl e \<Rightarrow> Inl e
           | Inr bin_line \<Rightarrow> bin_loop rest (bin_lst @ [bin_line])))"

definition bin_encoder :: "string list \<Rightarrow> error + string list" where
  "bin_encoder instr_lst = bin_loop instr_lst []"

subsection \<open>\<open>main\<close>\<close>

text \<open>
  The body of \<open>main\<close> between reading the lines of the \<open>.asm\<close> file and writing the lines
  of the \<open>.hack\<close> file. \<open>translate\<close> is the same from the instruction list on, after
  \<open>parser\<close>.
\<close>

definition translate :: "string list \<Rightarrow> error + string list" where
  "translate instr_lst0 =
     (case label_table instr_lst0 of
        Inl e \<Rightarrow> Inl e
      | Inr (lbl_tbl, instr_lst) \<Rightarrow>
          (let const_tbl = const_table
           in case var_table instr_lst lbl_tbl const_tbl of
                Inl e \<Rightarrow> Inl e
              | Inr var_tbl \<Rightarrow>
                  (case refer_to_num instr_lst lbl_tbl const_tbl var_tbl of
                     Inl e \<Rightarrow> Inl e
                   | Inr instr_lst' \<Rightarrow> bin_encoder instr_lst')))"

definition main_lines :: "string list \<Rightarrow> error + string list" where
  "main_lines asm_lst = translate (parser asm_lst)"

subsection \<open>Notions used to state the properties\<close>

text \<open>
  A compute instruction written from its clauses, \<open>[dest=]comp[;jump]\<close>; a clause is
  clean when it holds neither separator; \<open>clause_key\<close> is the key under which an absent
  or empty clause is looked up.
\<close>

definition c_instr :: "string option \<Rightarrow> string \<Rightarrow> string option \<Rightarrow> string" where
  "c_instr dest cmp jmp =
     (case dest of None \<Rightarrow> [] | Some d \<Rightarrow> d @ ''='') @ cmp @
     (case jmp of None \<Rightarrow> [] | Some j \<Rightarrow> CHR '';'' # j)"

definition clean :: "string \<Rightarrow> bool" where
  "clean s = (CHR ''='' \<notin> set s \<and> CHR '';'' \<notin> set s)"

definition clause_key :: "string option \<Rightarrow> string" where
  "clause_key cl = (case cl of None \<Rightarrow> ''null'' | Some s \<Rightarrow> if s = [] then ''null'' else s)"

text \<open>The two indices that \<open>c_instr_encoder\<close> computes first.\<close>

definition eq_index :: "string \<Rightarrow> int" where
  "eq_index line = (if CHR ''='' \<in> set line then int (py_index line CHR ''='')
                    else - int (length line) - 1)"

definition jmp_index :: "string \<Rightarrow> int" where
  "jmp_index line = (if CHR '';'' \<in> set line then int (py_index line CHR '';'')
                     else int (length line))"

text \<open>
  The body of the loop of \<open>refer_to_num\<close> on one line: the line it appends, or the
  exception it raises.
\<close>

definition resolve_line :: "table \<Rightarrow> string \<Rightarrow> error + string" where
  "resolve_line symb_tbl line =
     (case line of
        [] \<Rightarrow> Inl IndexError
      | c0 # r \<Rightarrow>
          if c0 = CHR ''@'' then
            (case r of
               [] \<Rightarrow> Inl IndexError
             | c1 # _ \<Rightarrow>
                 if \<not> py_isdigit c1 then
                   (case symb_tbl (slice_from 1 line) of
                      None \<Rightarrow> Inl KeyError
                    | Some v \<Rightarrow> Inr (CHR ''@'' # py_str v))
                 else Inr line)
          else Inr line)"

text \<open>
  The number that a string of binary digits denotes, most significant digit first, and
  the characters such a string is made of.
\<close>

definition bin_value :: "string \<Rightarrow> int" where
  "bin_value s = foldl (\<lambda>a c. 2 * a + (if c = CHR ''1'' then 1 else 0)) 0 s"

definition is_bit :: "char \<Rightarrow> bool" where
  "is_bit c = (c = CHR ''0'' \<or> c = CHR ''1'')"

section \<open>Properties\<close>

subsection \<open>Slices and indices\<close>

lemma py_index_first: "c \<notin> set xs \<Longrightarrow> py_index (xs @ c # ys) c = length xs"
  by (induction xs) (auto simp: py_index_def)

lemma slice_from_nat: "slice_from (int k) xs = drop k xs"
  by (simp add: slice_from_def norm_index_def min_def)

lemma slice_from_Suc: "slice_from (int k + 1) xs = drop (Suc k) xs"
  using slice_from_nat [of "Suc k" xs] by (simp add: add.commute)

lemma slice_to_nat: "slice_to (int k) xs = take k xs"
  by (simp add: slice_to_def norm_index_def min_def)

lemma slice_to_before: "slice_to (- int (length xs) - 1) xs = []"
  by (simp add: slice_to_def norm_index_def)

lemma slice_nat: "slice (int a) (int b) xs = take (b - a) (drop a xs)"
  by (cases "a \<le> length xs"; cases "b \<le> length xs")
    (auto simp: slice_def norm_index_def min_def Let_def)

lemma slice_Suc: "slice (int a + 1) (int b) xs = take (b - Suc a) (drop (Suc a) xs)"
  using slice_nat [of "Suc a" b xs] by (simp add: add.commute)

lemma slice_start: "slice (- int (length xs) - 1 + 1) (int b) xs = take b xs"
  by (simp add: slice_def norm_index_def min_def Let_def)

subsection \<open>The compute-instruction encoder on well-shaped instructions\<close>

lemma eq_index_c_instr:
  assumes "clean cmp" "\<forall>j. jmp = Some j \<longrightarrow> clean j" "\<forall>d. dest = Some d \<longrightarrow> clean d"
  shows "eq_index (c_instr dest cmp jmp) =
     (case dest of None \<Rightarrow> - int (length (c_instr dest cmp jmp)) - 1 | Some d \<Rightarrow> int (length d))"
proof (cases dest)
  case None
  with assms have "CHR ''='' \<notin> set (c_instr dest cmp jmp)"
    by (auto simp: c_instr_def clean_def split: option.splits)
  with None show ?thesis by (simp add: eq_index_def)
next
  case (Some d)
  with assms have "CHR ''='' \<notin> set d" by (simp add: clean_def)
  then have "py_index (d @ CHR ''='' # (cmp @ (case jmp of None \<Rightarrow> [] | Some j \<Rightarrow> CHR '';'' # j)))
      CHR ''='' = length d"
    by (rule py_index_first)
  with Some show ?thesis by (simp add: eq_index_def c_instr_def)
qed

lemma jmp_index_c_instr:
  assumes "clean cmp" "\<forall>d. dest = Some d \<longrightarrow> clean d" "\<forall>j. jmp = Some j \<longrightarrow> clean j"
  shows "jmp_index (c_instr dest cmp jmp) =
     int (length (case dest of None \<Rightarrow> [] | Some d \<Rightarrow> d @ ''='') + length cmp)"
proof (cases jmp)
  case None
  with assms have "CHR '';'' \<notin> set (c_instr dest cmp jmp)"
    by (auto simp: c_instr_def clean_def split: option.splits)
  then have "jmp_index (c_instr dest cmp jmp) = int (length (c_instr dest cmp jmp))"
    by (simp add: jmp_index_def)
  also have "length (c_instr dest cmp jmp) =
      length (case dest of None \<Rightarrow> [] | Some d \<Rightarrow> d @ ''='') + length cmp"
    using None by (simp add: c_instr_def)
  finally show ?thesis .
next
  case (Some j)
  let ?pre = "(case dest of None \<Rightarrow> [] | Some d \<Rightarrow> d @ ''='') @ cmp"
  from assms have "CHR '';'' \<notin> set ?pre"
    by (auto simp: clean_def split: option.splits)
  then have "py_index (?pre @ CHR '';'' # j) CHR '';'' = length ?pre"
    by (rule py_index_first)
  with Some show ?thesis by (simp add: jmp_index_def c_instr_def)
qed

lemma c_instr_encoder_parts:
  "c_instr_encoder line ct dt jt =
     (case ct (slice (eq_index line + 1) (jmp_index line) line) of
        None \<Rightarrow> Inl KeyError
      | Some cc \<Rightarrow>
          (case dt (if slice_to (eq_index line) line = [] then ''null''
                    else slice_to (eq_index line) line) of
             None \<Rightarrow> Inl KeyError
           | Some dc \<Rightarrow>
               (case jt (if slice_from (jmp_index line + 1) line = [] then ''null''
                         else slice_from (jmp_index line + 1) line) of
                  None \<Rightarrow> Inl KeyError
                | Some jc \<Rightarrow> Inr (''111'' @ cc @ dc @ jc))))"
  unfolding c_instr_encoder_def eq_index_def jmp_index_def Let_def ..

lemma c_instr_encoder_c_instr:
  assumes "clean cmp"
    and "\<forall>d. dest = Some d \<longrightarrow> clean d"
    and "\<forall>j. jmp = Some j \<longrightarrow> clean j"
  shows "c_instr_encoder (c_instr dest cmp jmp) ct dt jt =
     (case ct cmp of
        None \<Rightarrow> Inl KeyError
      | Some cc \<Rightarrow>
          (case dt (clause_key dest) of
             None \<Rightarrow> Inl KeyError
           | Some dc \<Rightarrow>
               (case jt (clause_key jmp) of
                  None \<Rightarrow> Inl KeyError
                | Some jc \<Rightarrow> Inr (''111'' @ cc @ dc @ jc))))"
proof -
  let ?line = "c_instr dest cmp jmp"
  note ei = eq_index_c_instr [OF assms(1) assms(3) assms(2)]
  note ji = jmp_index_c_instr [OF assms]
  have d: "(if slice_to (eq_index ?line) ?line = [] then ''null''
            else slice_to (eq_index ?line) ?line) = clause_key dest"
  proof (cases dest)
    case None
    then show ?thesis using ei slice_to_before [of ?line]
      by (simp add: clause_key_def)
  next
    case (Some d)
    then show ?thesis using ei
      by (simp add: clause_key_def slice_to_nat c_instr_def)
  qed
  have j: "(if slice_from (jmp_index ?line + 1) ?line = [] then ''null''
            else slice_from (jmp_index ?line + 1) ?line) = clause_key jmp"
    unfolding ji slice_from_Suc
    by (cases dest; cases jmp) (simp_all add: clause_key_def c_instr_def)
  have c: "slice (eq_index ?line + 1) (jmp_index ?line) ?line = cmp"
  proof (cases dest)
    case None
    then show ?thesis unfolding ji ei using slice_start [of ?line "length cmp"]
      by (simp add: c_instr_def)
  next
    case (Some d)
    have "slice (int (length d) + 1) (int (Suc (length d) + length cmp)) ?line =
        take (Suc (length d) + length cmp - Suc (length d)) (drop (Suc (length d)) ?line)"
      by (rule slice_Suc)
    with Some show ?thesis unfolding ji ei
      by (simp add: c_instr_def)
  qed
  show ?thesis
    unfolding c_instr_encoder_parts d j c ..
qed

lemma comp_tbl_neg_D: "comp_tbl ''-D'' = Some ''0001101''"
  by (simp add: comp_tbl_def)

lemma comp_tbl_not_D: "comp_tbl ''!D'' = Some ''0001101''"
  by (simp add: comp_tbl_def)

subsection \<open>The claims\<close>

text \<open>
  C5. On the instruction sequence \<open>@2, D=A, @3, D=D+A, @0, M=D\<close>, which has no labels and
  no variables, the whole pipeline returns the six 16-character encodings that the
  specification lists, one per instruction and in the order of the input. This holds
  from the raw lines on (\<open>main_lines\<close>) and from the instruction list on (\<open>translate\<close>).
\<close>

theorem pipeline_add_scenario:
  "main_lines [''@2'', ''D=A'', ''@3'', ''D=D+A'', ''@0'', ''M=D''] =
     Inr [''0000000000000010'', ''1110110000010000'', ''0000000000000011'',
          ''1110000010010000'', ''0000000000000000'', ''1110001100001000'']
   \<and> translate [''@2'', ''D=A'', ''@3'', ''D=D+A'', ''@0'', ''M=D''] =
     Inr [''0000000000000010'', ''1110110000010000'', ''0000000000000011'',
          ''1110000010010000'', ''0000000000000000'', ''1110001100001000'']"
  by code_simp

text \<open>
  C8. The constant table maps \<open>SCREEN\<close> to 16384, the resolver turns \<open>@SCREEN\<close> into
  \<open>@16384\<close>, and so the pipeline returns for \<open>@SCREEN\<close> the same 16-bit string as for
  \<open>@16384\<close>, namely \<open>0100000000000000\<close>.
\<close>

theorem screen_constant_encoding:
  "const_table ''SCREEN'' = Some 16384
   \<and> refer_to_num [''@SCREEN''] Map.empty const_table Map.empty = Inr [''@16384'']
   \<and> translate [''@SCREEN''] = translate [''@16384'']
   \<and> translate [''@SCREEN''] = Inr [''0100000000000000'']"
  by code_simp

text \<open>
  C9. The computation table gives \<open>-D\<close> and \<open>!D\<close> the same code \<open>0001101\<close>. Hence, whatever
  the destination and jump clauses (each present or absent, and free of \<open>=\<close> and \<open>;\<close>),
  the compute instruction with computation \<open>-D\<close> and the one with \<open>!D\<close> have the same
  result; when the two clauses are keys of their tables, this result is the 16-bit
  string \<open>111 0001101 ddd jjj\<close>.
\<close>

theorem neg_D_encodes_as_not_D:
  assumes "\<forall>d. dest = Some d \<longrightarrow> clean d"
    and "\<forall>j. jmp = Some j \<longrightarrow> clean j"
  shows "comp_tbl ''-D'' = Some ''0001101'' \<and> comp_tbl ''!D'' = Some ''0001101''
    \<and> c_instr_encoder (c_instr dest ''-D'' jmp) comp_tbl dest_tbl jmp_tbl =
      c_instr_encoder (c_instr dest ''!D'' jmp) comp_tbl dest_tbl jmp_tbl
    \<and> (\<forall>dc jc. dest_tbl (clause_key dest) = Some dc \<longrightarrow> jmp_tbl (clause_key jmp) = Some jc \<longrightarrow>
         c_instr_encoder (c_instr dest ''-D'' jmp) comp_tbl dest_tbl jmp_tbl =
           Inr (''1110001101'' @ dc @ jc)
         \<and> length (''1110001101'' @ dc @ jc) = 10 + length dc + length jc)"
proof -
  have cn: "clean ''-D''" and cd: "clean ''!D''"
    by (simp_all add: clean_def)
  show ?thesis
    unfolding c_instr_encoder_c_instr [OF cn assms] c_instr_encoder_c_instr [OF cd assms]
      comp_tbl_neg_D comp_tbl_not_D
    by simp
qed

theorem neg_D_encodes_as_not_D_witness:
  "c_instr_encoder ''AM=-D;JGT'' comp_tbl dest_tbl jmp_tbl =
     c_instr_encoder ''AM=!D;JGT'' comp_tbl dest_tbl jmp_tbl
   \<and> c_instr_encoder ''AM=-D;JGT'' comp_tbl dest_tbl jmp_tbl = Inr ''1110001101101001''"
proof -
  have h1: "\<forall>d. Some ''AM'' = Some d \<longrightarrow> clean d"
    and h2: "\<forall>j. Some ''JGT'' = Some j \<longrightarrow> clean j"
    by (simp_all add: clean_def)
  have k1: "dest_tbl (clause_key (Some ''AM'')) = Some ''101''"
    by (simp add: clause_key_def dest_tbl_def)
  have k2: "jmp_tbl (clause_key (Some ''JGT'')) = Some ''001''"
    by (simp add: clause_key_def jmp_tbl_def)
  have l1: "c_instr (Some ''AM'') ''-D'' (Some ''JGT'') = ''AM=-D;JGT''"
    and l2: "c_instr (Some ''AM'') ''!D'' (Some ''JGT'') = ''AM=!D;JGT''"
    by (simp_all add: c_instr_def)
  from neg_D_encodes_as_not_D [OF h1 h2] k1 k2 show ?thesis
    unfolding l1 l2 by auto
qed

subsection \<open>The parser, line by line\<close>

lemma concat_split_ws: "concat (split_ws cur s) = cur @ filter (\<lambda>c. \<not> py_isspace c) s"
  by (induction cur s rule: split_ws.induct) auto

lemma concat_py_split: "concat (py_split s) = filter (\<lambda>c. \<not> py_isspace c) s"
  by (simp add: py_split_def concat_split_ws)

lemma parser_loop_acc: "parser_loop xs acc = acc @ parser_loop xs []"
proof (induction xs arbitrary: acc)
  case Nil
  show ?case by simp
next
  case (Cons line rest)
  show ?case
    using Cons [of "acc @ [slice 0 (int (py_index (concat (py_split line)) CHR ''/'')) (concat (py_split line))]"]
      Cons [of "[slice 0 (int (py_index (concat (py_split line)) CHR ''/'')) (concat (py_split line))]"]
      Cons [of "acc @ [concat (py_split line)]"] Cons [of "[concat (py_split line)]"]
      Cons [of acc]
    by (simp add: Let_def)
qed

lemma parser_Cons: "parser (line # rest) = parser [line] @ parser rest"
  unfolding parser_def
  using parser_loop_acc [of rest "[slice 0 (int (py_index (concat (py_split line)) CHR ''/'')) (concat (py_split line))]"]
    parser_loop_acc [of rest "[concat (py_split line)]"]
  by (simp add: Let_def)

lemma parser_append: "parser (xs @ ys) = parser xs @ parser ys"
proof (induction xs)
  case Nil
  show ?case by (simp add: parser_def)
next
  case (Cons x xs)
  have "parser ((x # xs) @ ys) = parser [x] @ parser (xs @ ys)"
    using parser_Cons [of x "xs @ ys"] by simp
  also have "\<dots> = parser [x] @ parser xs @ parser ys" by (simp add: Cons)
  also have "\<dots> = parser (x # xs) @ parser ys" using parser_Cons [of x xs] by simp
  finally show ?case .
qed

subsection \<open>The resolver, line by line\<close>

lemma refer_loop_Cons:
  "refer_loop (line # rest) tbl acc =
     (case resolve_line tbl line of Inl e \<Rightarrow> Inl e | Inr l \<Rightarrow> refer_loop rest tbl (acc @ [l]))"
  by (simp add: resolve_line_def Let_def split: list.splits option.splits)

lemma refer_loop_Inr:
  "refer_loop xs tbl acc = Inr out \<Longrightarrow>
     length out = length acc + length xs \<and> take (length acc) out = acc
     \<and> (\<forall>i < length xs. resolve_line tbl (xs ! i) = Inr (out ! (length acc + i)))"
proof (induction xs arbitrary: acc)
  case Nil
  then show ?case by simp
next
  case (Cons line rest)
  from Cons.prems obtain l where l: "resolve_line tbl line = Inr l"
    and r: "refer_loop rest tbl (acc @ [l]) = Inr out"
    unfolding refer_loop_Cons by (auto split: sum.splits)
  from Cons.IH [OF r] have len: "length out = length acc + length (line # rest)"
    and tk: "take (Suc (length acc)) out = acc @ [l]"
    and nth: "\<forall>i < length rest. resolve_line tbl (rest ! i) = Inr (out ! (Suc (length acc) + i))"
    by simp_all
  have "take (length acc) out = take (length acc) (take (Suc (length acc)) out)"
    by (simp add: min_def)
  with tk have tk': "take (length acc) out = acc" by simp
  have "out ! length acc = take (Suc (length acc)) out ! length acc" by simp
  with tk have hd: "out ! length acc = l" by simp
  have "resolve_line tbl ((line # rest) ! i) = Inr (out ! (length acc + i))"
    if "i < length (line # rest)" for i
  proof (cases i)
    case 0
    with l hd show ?thesis by simp
  next
    case (Suc k)
    with that nth show ?thesis by simp
  qed
  with len tk' show ?case by blast
qed

lemma refer_loop_total:
  "\<forall>line \<in> set xs. \<exists>l. resolve_line tbl line = Inr l \<Longrightarrow> \<exists>out. refer_loop xs tbl acc = Inr out"
proof (induction xs arbitrary: acc)
  case Nil
  show ?case by simp
next
  case (Cons line rest)
  then obtain l where l: "resolve_line tbl line = Inr l" by auto
  from Cons have "\<exists>out. refer_loop rest tbl (acc @ [l]) = Inr out" by simp
  with l show ?case unfolding refer_loop_Cons by simp
qed

lemma slice_from_1_Cons: "slice_from 1 (x # xs) = xs"
  by (simp add: slice_from_def norm_index_def)

subsection \<open>The claims on the parser and the resolver\<close>

text \<open>
  C2, as the code has it. A raw line that is non-empty after the removal of whitespace
  and whose first \<open>/\<close> is at index 0 is dropped: it adds nothing to the output of
  \<open>parser\<close>, which is the output for the lines before it followed by the output for the
  lines after it.
\<close>

theorem comment_line_dropped:
  assumes "concat (py_split line) \<noteq> []"
    and "CHR ''/'' \<in> set (concat (py_split line))"
    and "py_index (concat (py_split line)) CHR ''/'' = 0"
  shows "parser (pre @ line # post) = parser pre @ parser post"
proof -
  from assms(1) have "line \<noteq> []" by (auto simp: py_split_def)
  with assms have "parser [line] = []" by (simp add: parser_def)
  then show ?thesis
    using parser_append [of pre "line # post"] parser_Cons [of line post] by simp
qed

theorem comment_line_dropped_witness:
  "concat (py_split ''  // loop '') = ''//loop''
   \<and> parser [''@1'', ''  // loop '', ''D=A''] = [''@1'', ''D=A'']"
proof -
  have m: "concat (py_split ''  // loop '') = ''//loop''" by code_simp
  have "parser ([''@1''] @ ''  // loop '' # [''D=A'']) = parser [''@1''] @ parser [''D=A'']"
    by (rule comment_line_dropped) (simp_all add: m py_index_def)
  moreover have "parser [''@1''] = [''@1'']" "parser [''D=A''] = [''D=A'']" by code_simp+
  ultimately show ?thesis using m by simp
qed

text \<open>
  C2, as stated, fails: the line \<open>//x\<close> is non-empty without whitespace, its first \<open>/\<close> is
  at index 0, and \<open>parser\<close> returns no line for it, so it is not passed through.
\<close>

theorem comment_line_counterexample:
  "concat (py_split ''//x'') \<noteq> [] \<and> CHR ''/'' \<in> set (concat (py_split ''//x''))
   \<and> py_index (concat (py_split ''//x'')) CHR ''/'' = 0
   \<and> parser [''//x''] = [] \<and> ''//x'' \<notin> set (parser [''//x''])"
  by code_simp

text \<open>
  C1, as the code has it. The merged table is built from the label, constant and
  variable tables in this order, a later table overwriting an earlier one. So when
  \<open>refer_to_num\<close> returns, an address instruction whose operand is symbolic carries, in
  the output, the value of the variable table if the operand is a key there, else that
  of the constant table, and only then that of the label table: the precedence is
  variable, then constant, then label.
\<close>

theorem resolver_precedence:
  assumes "refer_to_num instr_lst lbl_tbl const_tbl var_tbl = Inr new_lst"
    and "i < length instr_lst"
    and "instr_lst ! i = CHR ''@'' # c # cs"
    and "\<not> py_isdigit c"
  shows "length new_lst = length instr_lst
    \<and> (\<exists>v. (case var_tbl (c # cs) of
               Some a \<Rightarrow> Some a
             | None \<Rightarrow> (case const_tbl (c # cs) of Some a \<Rightarrow> Some a | None \<Rightarrow> lbl_tbl (c # cs)))
            = Some v
          \<and> new_lst ! i = CHR ''@'' # py_str v)"
proof -
  let ?tbl = "lbl_tbl ++ const_tbl ++ var_tbl"
  from assms(1) have r: "refer_loop instr_lst ?tbl [] = Inr new_lst"
    by (simp add: refer_to_num_def)
  from refer_loop_Inr [OF r] assms(2)
  have len: "length new_lst = length instr_lst"
    and res: "resolve_line ?tbl (instr_lst ! i) = Inr (new_lst ! i)"
    by simp_all
  from res assms(3,4) obtain v where v: "?tbl (c # cs) = Some v"
    and o: "new_lst ! i = CHR ''@'' # py_str v"
    by (auto simp: resolve_line_def slice_from_1_Cons split: option.splits)
  from v have "(case var_tbl (c # cs) of
               Some a \<Rightarrow> Some a
             | None \<Rightarrow> (case const_tbl (c # cs) of Some a \<Rightarrow> Some a | None \<Rightarrow> lbl_tbl (c # cs)))
            = Some v"
    by (simp add: map_add_def split: option.splits)
  with len o show ?thesis by blast
qed

theorem resolver_precedence_witness:
  "refer_to_num [''D=A'', ''@X''] [''X'' \<mapsto> 1] [''X'' \<mapsto> 2] [''X'' \<mapsto> 3] = Inr [''D=A'', ''@3'']
   \<and> refer_to_num [''D=A'', ''@X''] [''X'' \<mapsto> 1] [''X'' \<mapsto> 2] Map.empty = Inr [''D=A'', ''@2'']"
proof -
  have a: "refer_to_num [''D=A'', ''@X''] [''X'' \<mapsto> 1] [''X'' \<mapsto> 2] [''X'' \<mapsto> 3] = Inr [''D=A'', ''@3'']"
    by code_simp
  have b: "\<not> py_isdigit CHR ''X''" by code_simp
  from resolver_precedence [OF a, of 1 "CHR ''X''" "[]"] b
  have "[''D=A'', ''@3''] ! 1 = CHR ''@'' # py_str 3" by simp
  moreover have "refer_to_num [''D=A'', ''@X''] [''X'' \<mapsto> 1] [''X'' \<mapsto> 2] Map.empty = Inr [''D=A'', ''@2'']"
    by code_simp
  ultimately show ?thesis using a by simp
qed

text \<open>
  C1, as stated, fails: with \<open>X\<close> a key of all three tables, \<open>@X\<close> becomes the variable
  table's value 3, not the label table's value 1; with \<open>SCREEN\<close> both a label and a
  constant, \<open>@SCREEN\<close> becomes the constant 16384, not the label's index 0, also in the
  whole pipeline.
\<close>

theorem resolver_precedence_counterexample:
  "refer_to_num [''@X''] [''X'' \<mapsto> 1] [''X'' \<mapsto> 2] [''X'' \<mapsto> 3] = Inr [''@3'']
   \<and> refer_to_num [''@X''] [''X'' \<mapsto> 1] [''X'' \<mapsto> 2] [''X'' \<mapsto> 3] \<noteq> Inr [''@1'']
   \<and> refer_to_num [''@SCREEN''] [''SCREEN'' \<mapsto> 0] const_table Map.empty = Inr [''@16384'']
   \<and> translate [''(SCREEN)'', ''@SCREEN''] = Inr [''0100000000000000'']"
  by code_simp

subsection \<open>Decimal numerals: \<open>int(str(n)) = n\<close>\<close>

lemma digit_cases:
  assumes "0 \<le> d" "d < (10::int)"
  shows "d = 0 \<or> d = 1 \<or> d = 2 \<or> d = 3 \<or> d = 4 \<or> d = 5 \<or> d = 6 \<or> d = 7 \<or> d = 8 \<or> d = 9"
  using assms by arith

lemma digit_char_decimal: "0 \<le> d \<Longrightarrow> d < 10 \<Longrightarrow> is_decimal (digit_char d)"
  using digit_cases [of d] by (auto simp: is_decimal_def digit_char_def)

lemma digit_val_digit_char: "0 \<le> d \<Longrightarrow> d < 10 \<Longrightarrow> digit_val (digit_char d) = d"
  using digit_cases [of d] by (auto simp: digit_val_def digit_char_def)

lemma is_decimal_not_special:
  "is_decimal c \<Longrightarrow> \<not> int_space c \<and> c \<noteq> CHR ''_'' \<and> c \<noteq> CHR ''-'' \<and> c \<noteq> CHR ''+''"
  by (auto simp: is_decimal_def int_space_def)

lemma dec_digits_decimal: "0 \<le> n \<Longrightarrow> dec_digits n \<noteq> [] \<and> list_all is_decimal (dec_digits n)"
proof (induction n rule: dec_digits.induct)
  case (1 n)
  show ?case
  proof (cases "n < 10")
    case True
    with "1.prems" show ?thesis
      by (subst (1 2) dec_digits.simps) (simp add: digit_char_decimal)
  next
    case False
    with "1.prems" "1.IH" have "list_all is_decimal (dec_digits (n div 10))" by simp
    moreover have "is_decimal (digit_char (n mod 10))" by (simp add: digit_char_decimal)
    ultimately show ?thesis using False
      by (subst (1 2) dec_digits.simps) simp
  qed
qed

lemma dec_value_snoc:
  "c \<noteq> CHR ''_'' \<Longrightarrow> dec_value (s @ [c]) = 10 * dec_value s + digit_val c"
  by (simp add: dec_value_def)

lemma dec_value_dec_digits: "0 \<le> n \<Longrightarrow> dec_value (dec_digits n) = n"
proof (induction n rule: dec_digits.induct)
  case (1 n)
  show ?case
  proof (cases "n < 10")
    case True
    with "1.prems" have "is_decimal (digit_char n)" by (simp add: digit_char_decimal)
    then have "digit_char n \<noteq> CHR ''_''" using is_decimal_not_special by blast
    with True "1.prems" show ?thesis
      by (subst dec_digits.simps) (simp add: dec_value_def digit_val_digit_char)
  next
    case False
    with "1.prems" "1.IH" have ih: "dec_value (dec_digits (n div 10)) = n div 10" by simp
    have "is_decimal (digit_char (n mod 10))" by (simp add: digit_char_decimal)
    then have "digit_char (n mod 10) \<noteq> CHR ''_''" using is_decimal_not_special by blast
    then have "dec_value (dec_digits (n div 10) @ [digit_char (n mod 10)]) =
        10 * (n div 10) + n mod 10"
      by (simp add: dec_value_snoc ih digit_val_digit_char)
    with False show ?thesis
      by (subst dec_digits.simps) simp
  qed
qed

lemma valid_digits_decimal: "s \<noteq> [] \<Longrightarrow> list_all is_decimal s \<Longrightarrow> valid_digits s"
proof (induction s rule: valid_digits.induct)
  case 1
  then show ?case by simp
next
  case (2 c)
  then show ?case by simp
next
  case (3 c d cs)
  then show ?case using is_decimal_not_special [of d] by simp
qed

lemma dropWhile_decimal:
  "s \<noteq> [] \<Longrightarrow> list_all is_decimal s \<Longrightarrow> rev (dropWhile int_space (rev (dropWhile int_space s))) = s"
proof -
  assume ne: "s \<noteq> []" and dec: "list_all is_decimal s"
  from ne dec have "\<not> int_space (hd s)"
    using is_decimal_not_special [of "hd s"] by (cases s) simp_all
  with ne have a: "dropWhile int_space s = s" by (cases s) simp_all
  from ne dec have "\<not> int_space (last s)"
    using is_decimal_not_special [of "last s"] by (simp add: list_all_iff)
  with ne have "dropWhile int_space (rev s) = rev s"
    by (cases "rev s") (simp_all add: last_rev [symmetric] del: last_rev)
  with a show ?thesis by simp
qed

lemma py_int_decimal:
  assumes "s \<noteq> []" "list_all is_decimal s"
  shows "py_int s = Inr (dec_value s)"
proof -
  from assms have "hd s \<noteq> CHR ''-'' \<and> hd s \<noteq> CHR ''+''"
    using is_decimal_not_special [of "hd s"] by (cases s) simp_all
  with assms show ?thesis
    by (simp add: py_int_def dropWhile_decimal valid_digits_decimal Let_def)
qed

lemma py_int_py_str: "0 \<le> n \<Longrightarrow> py_int (py_str n) = Inr n"
  using dec_digits_decimal [of n]
  by (simp add: py_str_def py_int_decimal dec_value_dec_digits)

subsection \<open>Binary numerals\<close>

lemma pad_loop_replicate: "pad_loop k s = replicate k CHR ''0'' @ s"
  by (induction k arbitrary: s) (simp_all add: replicate_app_Cons_same)

lemma bit_cases: "0 \<le> d \<Longrightarrow> d < (2::int) \<Longrightarrow> d = 0 \<or> d = 1"
  by arith

lemma digit_char_bit: "0 \<le> d \<Longrightarrow> d < 2 \<Longrightarrow> is_bit (digit_char d)"
  using bit_cases [of d] by (auto simp: is_bit_def digit_char_def)

lemma bit_val_digit_char:
  "0 \<le> d \<Longrightarrow> d < 2 \<Longrightarrow> (if digit_char d = CHR ''1'' then 1 else 0) = d"
  using bit_cases [of d] by (auto simp: digit_char_def)

lemma bin_value_snoc:
  "bin_value (s @ [c]) = 2 * bin_value s + (if c = CHR ''1'' then 1 else 0)"
  by (simp add: bin_value_def)

lemma bin_value_zeros: "bin_value (replicate k CHR ''0'' @ s) = bin_value s"
proof -
  have "foldl (\<lambda>a c. 2 * a + (if c = CHR ''1'' then 1 else 0)) (0::int) (replicate k CHR ''0'') = 0"
    by (induction k) simp_all
  then show ?thesis by (simp add: bin_value_def)
qed

lemma bin_digits_bits: "0 \<le> n \<Longrightarrow> list_all is_bit (bin_digits n)"
proof (induction n rule: bin_digits.induct)
  case (1 n)
  show ?case
  proof (cases "n < 2")
    case True
    with "1.prems" show ?thesis
      by (subst bin_digits.simps) (simp add: digit_char_bit)
  next
    case False
    with "1.prems" "1.IH" have "list_all is_bit (bin_digits (n div 2))" by simp
    moreover have "is_bit (digit_char (n mod 2))" by (simp add: digit_char_bit)
    ultimately show ?thesis using False
      by (subst bin_digits.simps) simp
  qed
qed

lemma bin_value_bin_digits: "0 \<le> n \<Longrightarrow> bin_value (bin_digits n) = n"
proof (induction n rule: bin_digits.induct)
  case (1 n)
  show ?case
  proof (cases "n < 2")
    case True
    with "1.prems" bit_val_digit_char [of n] show ?thesis
      by (subst bin_digits.simps) (simp add: bin_value_def)
  next
    case False
    with "1.prems" "1.IH" have ih: "bin_value (bin_digits (n div 2)) = n div 2" by simp
    have "(if digit_char (n mod 2) = CHR ''1'' then 1 else 0) = n mod 2"
      by (rule bit_val_digit_char) simp_all
    then have "bin_value (bin_digits (n div 2) @ [digit_char (n mod 2)]) = 2 * (n div 2) + n mod 2"
      by (simp only: bin_value_snoc ih)
    with False show ?thesis
      by (subst bin_digits.simps) simp
  qed
qed

lemma length_bin_digits_le: "0 < k \<Longrightarrow> n < 2 ^ k \<Longrightarrow> length (bin_digits n) \<le> k"
proof (induction n arbitrary: k rule: bin_digits.induct)
  case (1 n)
  show ?case
  proof (cases "n < 2")
    case True
    with "1.prems" show ?thesis
      by (subst bin_digits.simps) simp
  next
    case False
    with "1.prems" obtain j where k: "k = Suc j" and j: "0 < j"
      by (cases k; cases "k - 1") auto
    from "1.prems" k have "n div 2 < 2 ^ j" by simp
    with "1.IH" [OF False j] have "length (bin_digits (n div 2)) \<le> j" by simp
    with False k show ?thesis
      by (subst bin_digits.simps) simp
  qed
qed

lemma length_bin_digits_gt: "2 ^ k \<le> n \<Longrightarrow> k < length (bin_digits n)"
proof (induction n arbitrary: k rule: bin_digits.induct)
  case (1 n)
  show ?case
  proof (cases "n < 2")
    case True
    have "k = 0"
    proof (cases k)
      case 0
      then show ?thesis .
    next
      case (Suc j)
      have "(1::int) \<le> 2 ^ j" by simp
      with Suc "1.prems" True show ?thesis by simp
    qed
    then show ?thesis
      by (subst bin_digits.simps) (simp add: True)
  next
    case False
    show ?thesis
    proof (cases k)
      case 0
      with False show ?thesis by (subst bin_digits.simps) simp
    next
      case (Suc j)
      with "1.prems" have "2 ^ j \<le> n div 2" by simp
      with "1.IH" [OF False] have "j < length (bin_digits (n div 2))" by simp
      with False Suc show ?thesis
        by (subst bin_digits.simps) simp
    qed
  qed
qed

lemma hd_bin_digits: "1 \<le> n \<Longrightarrow> hd (bin_digits n) = CHR ''1''"
proof (induction n rule: bin_digits.induct)
  case (1 n)
  show ?case
  proof (cases "n < 2")
    case True
    with "1.prems" have "n = 1" by simp
    then show ?thesis by (subst bin_digits.simps) (simp add: digit_char_def)
  next
    case False
    then have "1 \<le> n div 2" by simp
    with "1.IH" [OF False] have "hd (bin_digits (n div 2)) = CHR ''1''" by simp
    moreover have "bin_digits (n div 2) \<noteq> []"
      by (subst bin_digits.simps) simp
    ultimately show ?thesis using False
      by (subst bin_digits.simps) simp
  qed
qed

lemma zeros_bits: "list_all is_bit (replicate k CHR ''0'')"
  by (induction k) (simp_all add: is_bit_def)

lemma padded_bits: "0 \<le> n \<Longrightarrow> list_all is_bit (replicate k CHR ''0'' @ bin_digits n)"
  by (simp only: list_all_append zeros_bits bin_digits_bits simp_thms)

lemma a_instr_encoder_py_str:
  assumes "0 \<le> n"
  shows "a_instr_encoder (CHR ''@'' # py_str n) =
     Inr (replicate (16 - length (bin_digits n)) CHR ''0'' @ bin_digits n)"
proof -
  have b: "slice_from 2 (py_bin n) = bin_digits n"
    using assms by (simp add: py_bin_def slice_from_def norm_index_def)
  have k: "nat (16 - int (length (bin_digits n))) = 16 - length (bin_digits n)"
    by arith
  have i: "py_int (slice_from 1 (CHR ''@'' # py_str n)) = Inr n"
    using assms by (simp only: slice_from_1_Cons py_int_py_str)
  have "a_instr_encoder (CHR ''@'' # py_str n) =
      Inr (pad_loop (nat (16 - int (length (bin_digits n)))) (bin_digits n))"
    by (simp only: a_instr_encoder_def i b Let_def sum.case)
  then show ?thesis
    by (simp only: k pad_loop_replicate)
qed

subsection \<open>The claims on the address-instruction encoder\<close>

text \<open>
  C7. For every integer \<open>n\<close> from 0 to 32767, the address instruction \<open>@n\<close> is encoded as
  a leading \<open>0\<close> followed by the 15-bit binary representation of \<open>n\<close>, padded on the left
  with zeros: 15 binary digits whose value is \<open>n\<close>. The result has 16 characters. In
  particular \<open>@0\<close> gives \<open>0000000000000000\<close> and \<open>@32767\<close> gives \<open>0111111111111111\<close>.
\<close>

theorem a_instr_15_bit:
  assumes "0 \<le> n" and "n \<le> 32767"
  shows "(\<exists>t. a_instr_encoder (CHR ''@'' # py_str n) = Inr (CHR ''0'' # t)
            \<and> length t = 15 \<and> list_all is_bit t \<and> bin_value t = n)
    \<and> a_instr_encoder ''@0'' = Inr ''0000000000000000''
    \<and> a_instr_encoder ''@32767'' = Inr ''0111111111111111''"
proof (intro conjI)
  let ?b = "bin_digits n"
  let ?t = "replicate (15 - length ?b) CHR ''0'' @ ?b"
  from assms have "n < 2 ^ 15" by simp
  then have len: "length ?b \<le> 15" by (intro length_bin_digits_le) simp_all
  then have "16 - length ?b = Suc (15 - length ?b)" by simp
  then have "replicate (16 - length ?b) CHR ''0'' @ ?b = CHR ''0'' # ?t"
    by (simp only: replicate_Suc append_Cons)
  then have enc: "a_instr_encoder (CHR ''@'' # py_str n) = Inr (CHR ''0'' # ?t)"
    by (simp only: a_instr_encoder_py_str [OF assms(1)])
  from len have l: "length ?t = 15" by simp
  have bits: "list_all is_bit ?t"
    using assms(1) by (rule padded_bits)
  have v: "bin_value ?t = n"
    by (simp only: bin_value_zeros bin_value_bin_digits [OF assms(1)])
  show "\<exists>t. a_instr_encoder (CHR ''@'' # py_str n) = Inr (CHR ''0'' # t)
            \<and> length t = 15 \<and> list_all is_bit t \<and> bin_value t = n"
    by (rule exI [of _ ?t]) (intro conjI enc l bits v)
  show "a_instr_encoder ''@0'' = Inr ''0000000000000000''" by code_simp
  show "a_instr_encoder ''@32767'' = Inr ''0111111111111111''" by code_simp
qed

theorem a_instr_15_bit_witness:
  "a_instr_encoder ''@21845'' = Inr ''0101010101010101''
   \<and> bin_value ''101010101010101'' = 21845"
proof -
  have s: "py_str 21845 = ''21845''" by code_simp
  have e: "a_instr_encoder ''@21845'' = Inr ''0101010101010101''" by code_simp
  have "(0::int) \<le> 21845" "(21845::int) \<le> 32767" by simp_all
  from a_instr_15_bit [OF this] obtain t where
    t: "a_instr_encoder (CHR ''@'' # py_str 21845) = Inr (CHR ''0'' # t)" and v: "bin_value t = 21845"
    by blast
  from t have "t = ''101010101010101''" unfolding s e by simp
  with v e show ?thesis by simp
qed

text \<open>
  C10. For every integer \<open>n\<close> from 32768 to 65535, encoding \<open>@n\<close> raises nothing and
  returns 16 binary digits, the first of which is \<open>1\<close>; they are the 16-bit
  representation of \<open>n\<close>. The encoder has no range check.
\<close>

theorem a_instr_out_of_range:
  assumes "32768 \<le> n" and "n \<le> 65535"
  shows "\<exists>s. a_instr_encoder (CHR ''@'' # py_str n) = Inr s
            \<and> length s = 16 \<and> hd s = CHR ''1'' \<and> list_all is_bit s \<and> bin_value s = n"
proof -
  let ?b = "bin_digits n"
  from assms have n0: "0 \<le> n" by simp
  from assms have "n < 2 ^ 16" by simp
  then have "length ?b \<le> 16" by (intro length_bin_digits_le) simp_all
  moreover from assms have "2 ^ 15 \<le> n" by simp
  then have "15 < length ?b" by (rule length_bin_digits_gt)
  ultimately have len: "length ?b = 16" by simp
  then have "replicate (16 - length ?b) CHR ''0'' @ ?b = ?b" by simp
  then have enc: "a_instr_encoder (CHR ''@'' # py_str n) = Inr ?b"
    by (simp only: a_instr_encoder_py_str [OF n0])
  from assms have "1 \<le> n" by simp
  then have h: "hd ?b = CHR ''1''" by (rule hd_bin_digits)
  show ?thesis
    by (rule exI [of _ ?b])
      (intro conjI enc len h bin_digits_bits [OF n0] bin_value_bin_digits [OF n0])
qed

theorem a_instr_out_of_range_witness:
  "a_instr_encoder ''@40000'' = Inr ''1001110001000000''
   \<and> length ''1001110001000000'' = 16 \<and> hd ''1001110001000000'' = CHR ''1''"
proof -
  have s: "py_str 40000 = ''40000''" by code_simp
  have e: "a_instr_encoder ''@40000'' = Inr ''1001110001000000''" by code_simp
  have "(32768::int) \<le> 40000" "(40000::int) \<le> 65535" by simp_all
  from a_instr_out_of_range [OF this] obtain t where
    t: "a_instr_encoder (CHR ''@'' # py_str 40000) = Inr t" and l: "length t = 16"
    and h: "hd t = CHR ''1''"
    by blast
  from t have "t = ''1001110001000000''" unfolding s e by simp
  with l h e show ?thesis by simp
qed

end
